theory Spec2Isabelle
  imports Main "HOL-Library.AList" "HOL-Library.Sublist" "HOL-Library.Product_Lexorder"
begin

section \<open>Python strings\<close>

text \<open>
  A Python \<open>str\<close> is a sequence of Unicode code points, and \<open>len\<close> counts code points.
  The separators of the splitter include the full-width characters U+3002, U+FF01 and
  U+FF1F, so a string is modelled as a list of code points, not of bytes.
\<close>

type_synonym ustr = "nat list"

definition ustr_of :: "string \<Rightarrow> ustr" where
  "ustr_of s = map of_char s"

text \<open>
  The characters for which \<open>str.isspace\<close> holds; \<open>str.strip()\<close> without argument and the
  class \<open>\s\<close> of a \<open>str\<close> pattern both use this set.
\<close>

definition is_space :: "nat \<Rightarrow> bool" where
  "is_space c \<longleftrightarrow> (9 \<le> c \<and> c \<le> 13) \<or> (28 \<le> c \<and> c \<le> 32) \<or> c = 133 \<or> c = 160
      \<or> c = 5760 \<or> (8192 \<le> c \<and> c \<le> 8202) \<or> c = 8232 \<or> c = 8233 \<or> c = 8239
      \<or> c = 8287 \<or> c = 12288"

definition strip :: "ustr \<Rightarrow> ustr" where
  "strip t = rev (dropWhile is_space (rev (dropWhile is_space t)))"

text \<open>\<open>t[a:b]\<close> for offsets that are not negative (the offsets of a regex match).\<close>

definition slice :: "ustr \<Rightarrow> nat \<Rightarrow> nat \<Rightarrow> ustr" where
  "slice t a b = take (b - a) (drop a t)"

text \<open>
  Python's slice index normalisation for any integer: a negative index counts from the
  end, and the result is clamped to \<open>0..len\<close>.
\<close>

definition norm_index :: "ustr \<Rightarrow> int \<Rightarrow> nat" where
  "norm_index t i =
     (if i < 0 then nat (max (i + int (length t)) 0) else min (nat i) (length t))"

definition py_slice :: "ustr \<Rightarrow> int \<Rightarrow> int \<Rightarrow> ustr" where
  "py_slice t i j = slice t (norm_index t i) (norm_index t j)"

definition py_slice_from :: "ustr \<Rightarrow> int \<Rightarrow> ustr" where
  "py_slice_from t i = drop (norm_index t i) t"

text \<open>\<open>sep in t\<close>: the substring test.\<close>

fun occurs :: "ustr \<Rightarrow> ustr \<Rightarrow> bool" where
  "occurs sep [] = (sep = [])"
| "occurs sep (c # cs) = (prefix sep (c # cs) \<or> occurs sep cs)"

text \<open>
  \<open>t.split(sep)\<close> for a non-empty separator: the occurrences are found from left to right
  and do not overlap; the parts between them are returned, empty ones included. The
  second argument collects the current part in reverse. (Python raises \<open>ValueError\<close> on an
  empty separator; every separator of the splitter is a non-empty literal.)
\<close>

fun split_from :: "ustr \<Rightarrow> ustr \<Rightarrow> ustr \<Rightarrow> ustr list" where
  "split_from sep acc [] = [rev acc]"
| "split_from sep acc (c # cs) =
     (if sep \<noteq> [] \<and> prefix sep (c # cs)
      then rev acc # split_from sep [] (drop (length sep) (c # cs))
      else split_from sep (c # acc) cs)"

definition py_split :: "ustr \<Rightarrow> ustr \<Rightarrow> ustr list" where
  "py_split sep t = split_from sep [] t"

text \<open>\<open>sep.join(xs)\<close>.\<close>

fun join :: "ustr \<Rightarrow> ustr list \<Rightarrow> ustr" where
  "join sep [] = []"
| "join sep [x] = x"
| "join sep (x # y # ys) = x @ sep @ join sep (y # ys)"

section \<open>Regular expressions\<close>

text \<open>
  The patterns of the program are matched by Python's \<open>re\<close>, a backtracking matcher.
  A pattern is a term of \<open>rx\<close>; matching a pattern from a state returns every way to match
  it, in the order in which backtracking tries them, so the match \<open>re\<close> reports is the head
  of the list. A state holds the offset, the character before it (for \<open>^\<close>), the text
  still to read and the text of the groups matched so far.
\<close>

record mstate =
  pos :: nat
  prev :: "nat option"
  rest :: ustr
  groups :: "(nat \<times> ustr) list"

datatype rx =
    Eps
  | Cls "nat \<Rightarrow> bool"
  | Seq rx rx
  | Rep nat "nat option" bool rx
  | Grp nat rx
  | Bol
  | Eol

text \<open>
  \<open>Rep lo hi greedy r\<close> is \<open>r{lo,hi}\<close> (\<open>hi = None\<close> is unbounded): a greedy quantifier
  tries another round of \<open>r\<close> before it tries to stop, a lazy one (\<open>*?\<close>) the other way
  round. A round that consumes no character ends the repetition, as in \<open>re\<close>.
\<close>

function rep :: "(mstate \<Rightarrow> mstate list) \<Rightarrow> bool \<Rightarrow> nat \<Rightarrow> nat option \<Rightarrow> mstate \<Rightarrow> mstate list" where
  "rep f greedy lo hi s =
     (let more = (if hi = Some 0 then []
                  else concat (map (\<lambda>s'. if length (rest s') < length (rest s)
                                          then rep f greedy (lo - 1) (map_option (\<lambda>h. h - 1) hi) s'
                                          else []) (f s)));
          stop = (if lo = 0 then [s] else [])
      in if greedy then more @ stop else stop @ more)"
  by pat_completeness auto
termination
  by (relation "measure (\<lambda>(f, greedy, lo, hi, s). length (rest s))") auto

declare rep.simps [simp del]

text \<open>
  \<open>Bol\<close> and \<open>Eol\<close> are \<open>^\<close> and \<open>$\<close> under \<open>re.MULTILINE\<close>: at the start of the text or right
  after a newline, and at the end of the text or right before a newline.
\<close>

primrec rx_match :: "rx \<Rightarrow> mstate \<Rightarrow> mstate list" where
  "rx_match Eps s = [s]"
| "rx_match (Cls P) s =
     (case rest s of
        [] \<Rightarrow> []
      | c # cs \<Rightarrow> if P c then [s\<lparr>pos := Suc (pos s), prev := Some c, rest := cs\<rparr>] else [])"
| "rx_match (Seq a b) s = concat (map (rx_match b) (rx_match a s))"
| "rx_match (Rep lo hi greedy r) s = rep (rx_match r) greedy lo hi s"
| "rx_match (Grp n r) s =
     map (\<lambda>s'. s'\<lparr>groups := AList.update n (take (pos s' - pos s) (rest s)) (groups s')\<rparr>)
       (rx_match r s)"
| "rx_match Bol s = (if prev s = None \<or> prev s = Some 10 then [s] else [])"
| "rx_match Eol s = (case rest s of [] \<Rightarrow> [s] | c # cs \<Rightarrow> if c = 10 then [s] else [])"

definition lit :: "ustr \<Rightarrow> rx" where
  "lit w = foldr (\<lambda>c r. Seq (Cls (\<lambda>x. x = c)) r) w Eps"

text \<open>
  The scan of \<open>re.finditer\<close> and \<open>re.findall\<close>: the leftmost match from the current
  offset is reported as (start, end, groups) and the scan goes on at its end; where
  nothing matches, the scan moves on by one character. None of the patterns of this
  program matches the empty string; for a pattern that did, the scan here moves on by
  one character.
\<close>

function scan :: "rx \<Rightarrow> mstate \<Rightarrow> (nat \<times> nat \<times> (nat \<times> ustr) list) list" where
  "scan r s =
     (case rx_match r s of
        [] \<Rightarrow> (case rest s of
                 [] \<Rightarrow> []
               | c # cs \<Rightarrow> scan r (s\<lparr>pos := Suc (pos s), prev := Some c, rest := cs\<rparr>))
      | e # alts \<Rightarrow>
          (pos s, pos e, groups e) #
            (if length (rest e) < length (rest s) then scan r (e\<lparr>groups := []\<rparr>)
             else (case rest s of
                     [] \<Rightarrow> []
                   | c # cs \<Rightarrow> scan r (s\<lparr>pos := Suc (pos s), prev := Some c, rest := cs\<rparr>))))"
  by pat_completeness auto
termination
  by (relation "measure (\<lambda>(r, s). length (rest s))") auto

declare scan.simps [simp del]

definition finditer :: "rx \<Rightarrow> ustr \<Rightarrow> (nat \<times> nat \<times> (nat \<times> ustr) list) list" where
  "finditer r t = scan r \<lparr>pos = 0, prev = None, rest = t, groups = []\<rparr>"

text \<open>The text of group \<open>n\<close> of a match (the empty string for a group that took no part).\<close>

definition group :: "(nat \<times> ustr) list \<Rightarrow> nat \<Rightarrow> ustr" where
  "group g n = (case map_of g n of None \<Rightarrow> [] | Some w \<Rightarrow> w)"

text \<open>\<open>[\s\S]\<close> is any character, \<open>.\<close> any character but the newline.\<close>

definition any_char :: "nat \<Rightarrow> bool" where
  "any_char c \<longleftrightarrow> is_space c \<or> \<not> is_space c"

definition dot :: "nat \<Rightarrow> bool" where
  "dot c \<longleftrightarrow> c \<noteq> 10"

section \<open>HeaderTracker\<close>

text \<open>
  \<open>active_headers\<close> is a dict from level to title; an association list keeps Python's
  insertion order. The pattern is \<^verbatim>\<open>^(#{1,6})\s+(.+)$\<close> with \<open>re.MULTILINE\<close>.
\<close>

type_synonym headers = "(nat \<times> ustr) list"

definition header_rx :: rx where
  "header_rx =
     Seq Bol (Seq (Grp 1 (Rep 1 (Some 6) True (Cls (\<lambda>c. c = 35))))
       (Seq (Rep 1 None True (Cls is_space))
         (Seq (Grp 2 (Rep 1 None True (Cls dot))) Eol)))"

definition findall_headers :: "ustr \<Rightarrow> (ustr \<times> ustr) list" where
  "findall_headers t = map (\<lambda>(a, b, g). (group g 1, group g 2)) (finditer header_rx t)"

definition header_step :: "headers \<Rightarrow> ustr \<times> ustr \<Rightarrow> headers" where
  "header_step hs m =
     (let level = length (fst m);
          hs1 = AList.update level (strip (snd m)) hs
      in filter (\<lambda>(k, v). \<not> level < k) hs1)"

definition update_from_text :: "headers \<Rightarrow> ustr \<Rightarrow> headers" where
  "update_from_text hs t = foldl header_step hs (findall_headers t)"

definition get_headers :: "headers \<Rightarrow> ustr" where
  "get_headers hs =
     join (ustr_of '' > '')
       (map (\<lambda>k. case map_of hs k of None \<Rightarrow> [] | Some v \<Rightarrow> v) (sort (map fst hs)))"

section \<open>TextSplitter\<close>

record splitter =
  chunk_size :: int
  chunk_overlap :: int
  header_tracker :: headers

definition TextSplitter :: "int \<Rightarrow> int \<Rightarrow> splitter" where
  "TextSplitter cs ov = \<lparr>chunk_size = cs, chunk_overlap = ov, header_tracker = []\<rparr>"

text \<open>The separators: three newlines, two, one, then U+3002, U+FF01 and U+FF1F.\<close>

definition separators :: "ustr list" where
  "separators = [[10, 10, 10], [10, 10], [10], [12290], [65281], [65311]]"

text \<open>
  The protected patterns, in the order of the source: \<^verbatim>\<open>\$\$[\s\S]*?\$\$\<close>,
  \<^verbatim>\<open>```[\s\S]*?```\<close>, \<^verbatim>\<open>!\[.*?\]\(.*?\)\<close>, \<^verbatim>\<open>\[.*?\]\(.*?\)\<close> and
  \<^verbatim>\<open>[ ]*(?:\|[^|\n]*)+\|\<close>.
\<close>

definition link_tail :: rx where
  "link_tail =
     Seq (Rep 0 None False (Cls dot))
       (Seq (lit [93, 40]) (Seq (Rep 0 None False (Cls dot)) (lit [41])))"

definition protect_patterns :: "rx list" where
  "protect_patterns =
    [ Seq (lit [36, 36]) (Seq (Rep 0 None False (Cls any_char)) (lit [36, 36])),
      Seq (lit [96, 96, 96]) (Seq (Rep 0 None False (Cls any_char)) (lit [96, 96, 96])),
      Seq (lit [33, 91]) link_tail,
      Seq (lit [91]) link_tail,
      Seq (Rep 0 None True (Cls (\<lambda>c. c = 32)))
        (Seq (Rep 1 None True
               (Seq (Cls (\<lambda>c. c = 124)) (Rep 0 None True (Cls (\<lambda>c. c \<noteq> 124 \<and> c \<noteq> 10)))))
           (Cls (\<lambda>c. c = 124))) ]"

definition extract_protected_ranges :: "ustr \<Rightarrow> (nat \<times> nat) list" where
  "extract_protected_ranges t =
     sort (concat (map (\<lambda>p. map (\<lambda>(a, b, g). (a, b)) (finditer p t)) protect_patterns))"

text \<open>
  The last loop of \<open>recursive_split\<close>, \<open>while start < len(text)\<close>. With a chunk size
  that is not positive \<open>start\<close> never grows and the loop does not end, so the loop is a
  partial function: \<open>None\<close> is "does not return".
\<close>

partial_function (option) fixed_width :: "int \<Rightarrow> ustr \<Rightarrow> int \<Rightarrow> ustr list \<Rightarrow> ustr list option" where
  "fixed_width cs t start result =
     (if start < int (length t)
      then fixed_width cs t (min (start + cs) (int (length t)))
             (result @ [py_slice t start (min (start + cs) (int (length t)))])
      else Some result)"

declare fixed_width.simps [code]

text \<open>The results of the recursive calls are appended in order; one call that does not
  return keeps the whole from returning.\<close>

definition extend_all :: "ustr list option list \<Rightarrow> ustr list option" where
  "extend_all rs = map_option concat (those rs)"

function recursive_split :: "int \<Rightarrow> ustr \<Rightarrow> ustr list option" where
  "recursive_split cs t =
     (if strip t = [] then Some []
      else if int (length (strip t)) \<le> cs then Some [strip t]
      else (case find (\<lambda>sep. occurs sep (strip t)) separators of
              Some sep \<Rightarrow> extend_all (map (recursive_split cs) (py_split sep (strip t)))
            | None \<Rightarrow> fixed_width cs (strip t) 0 []))"
  by pat_completeness auto
termination
proof (relation "measure (\<lambda>(cs, t). length t)")
  show "wf (measure (\<lambda>(cs, t). length t))" by simp
next
  fix cs :: int and t sep p :: ustr
  assume found: "find (\<lambda>sep. occurs sep (strip t)) separators = Some sep"
    and part: "p \<in> set (py_split sep (strip t))"
  have le: "q \<in> set (split_from s acc u) \<Longrightarrow> length q \<le> length acc + length u"
    for s acc u q
    by (induction s acc u rule: split_from.induct) (auto split: if_splits)
  have lt: "s \<noteq> [] \<Longrightarrow> occurs s u \<Longrightarrow> q \<in> set (split_from s acc u) \<Longrightarrow>
              length q < length acc + length u" for s acc u q
  proof (induction s acc u rule: split_from.induct)
    case (1 s acc)
    then show ?case by simp
  next
    case (2 s acc c cs)
    show ?case
    proof (cases "prefix s (c # cs)")
      case True
      with 2(3,5) have "q = rev acc \<or> q \<in> set (split_from s [] (drop (length s) (c # cs)))"
        by simp
      then show ?thesis
      proof
        assume "q = rev acc"
        then show ?thesis by simp
      next
        assume "q \<in> set (split_from s [] (drop (length s) (c # cs)))"
        from le [OF this] 2(3) show ?thesis by (cases s) auto
      qed
    next
      case False
      with 2(4) have "occurs s cs" by simp
      moreover from False 2(5) have "q \<in> set (split_from s (c # acc) cs)" by simp
      ultimately show ?thesis using 2(2) [OF _ 2(3)] False by fastforce
    qed
  qed
  from found have "sep \<noteq> [] \<and> occurs sep (strip t)"
    by (auto simp: separators_def split: if_splits)
  with part have "length p < length (strip t)"
    using lt [of sep "strip t" p "[]"] by (simp add: py_split_def)
  moreover have "length (strip t) \<le> length t"
  proof -
    have "length (strip t) \<le> length (rev (dropWhile is_space t))"
      unfolding strip_def length_rev [of "dropWhile is_space (rev (dropWhile is_space t))"]
      by (rule length_dropWhile_le)
    also have "\<dots> \<le> length t" by (simp add: length_dropWhile_le)
    finally show ?thesis .
  qed
  ultimately show "((cs, p), (cs, t)) \<in> measure (\<lambda>(cs, t). length t)" by simp
qed

declare recursive_split.simps [simp del]

text \<open>
  \<open>split_preserving_protected\<close>: the loop over the protected ranges carries
  \<open>last_index\<close> and the segments so far.
\<close>

fun protected_loop ::
  "int \<Rightarrow> ustr \<Rightarrow> (nat \<times> nat) list \<Rightarrow> nat \<Rightarrow> ustr list \<Rightarrow> (ustr list \<times> nat) option" where
  "protected_loop cs t [] last_index segments = Some (segments, last_index)"
| "protected_loop cs t ((start, stop) # ps) last_index segments =
     (if last_index < start
      then (case recursive_split cs (slice t last_index start) of
              None \<Rightarrow> None
            | Some r \<Rightarrow> protected_loop cs t ps stop (segments @ r @ [slice t start stop]))
      else protected_loop cs t ps stop (segments @ [slice t start stop]))"

definition split_preserving_protected :: "int \<Rightarrow> ustr \<Rightarrow> (nat \<times> nat) list \<Rightarrow> ustr list option" where
  "split_preserving_protected cs t protected =
     (case protected_loop cs t protected 0 [] of
        None \<Rightarrow> None
      | Some (segments, last_index) \<Rightarrow>
          if last_index < length t
          then (case recursive_split cs (drop last_index t) of
                  None \<Rightarrow> None
                | Some r \<Rightarrow> Some (segments @ r))
          else Some segments)"

text \<open>
  \<open>merge_chunks\<close>. The overlap is \<open>current_chunk[-chunk_overlap:]\<close> when
  \<open>chunk_overlap < len(current_chunk)\<close> and the whole of \<open>current_chunk\<close> otherwise.
\<close>

definition overlap :: "int \<Rightarrow> ustr \<Rightarrow> ustr" where
  "overlap ov cur = (if ov < int (length cur) then py_slice_from cur (- ov) else cur)"

fun merge_loop :: "int \<Rightarrow> int \<Rightarrow> ustr list \<Rightarrow> ustr list \<times> ustr \<Rightarrow> ustr list \<times> ustr" where
  "merge_loop cs ov [] st = st"
| "merge_loop cs ov (segment # segments) (chunks, cur) =
     (if cs < int (length cur) + int (length segment)
      then merge_loop cs ov segments
             ((if cur \<noteq> [] then chunks @ [cur] else chunks), overlap ov cur @ segment)
      else merge_loop cs ov segments (chunks, cur @ segment))"

definition merge_chunks :: "int \<Rightarrow> int \<Rightarrow> ustr list \<Rightarrow> ustr list" where
  "merge_chunks cs ov segments =
     (case merge_loop cs ov segments ([], []) of
        (chunks, cur) \<Rightarrow> if cur \<noteq> [] then chunks @ [cur] else chunks)"

text \<open>
  \<open>split\<close>: the tracker of the instance is updated by the scan and stays so; the call
  returns the chunks and the instance after the call, or \<open>None\<close> when it does not return.
\<close>

definition add_header :: "headers \<Rightarrow> ustr \<Rightarrow> ustr" where
  "add_header hs chunk =
     (if get_headers hs \<noteq> [] then get_headers hs @ [10, 10] @ chunk else chunk)"

definition split :: "splitter \<Rightarrow> ustr \<Rightarrow> (ustr list \<times> splitter) option" where
  "split s t =
     (let hs = update_from_text (header_tracker s) t;
          protected = extract_protected_ranges t
      in case split_preserving_protected (chunk_size s) t protected of
           None \<Rightarrow> None
         | Some segments \<Rightarrow>
             Some (map (add_header hs) (merge_chunks (chunk_size s) (chunk_overlap s) segments),
                   s\<lparr>header_tracker := hs\<rparr>))"

text \<open>The document of the first scenario of the specification.\<close>

definition title_doc :: ustr where
  "title_doc = ustr_of ''# Title'' @ [10, 10] @ ustr_of ''Some short paragraph.''"

text \<open>The last \<open>n\<close> characters of a string (the whole string when it is shorter).\<close>

definition last_chars :: "nat \<Rightarrow> ustr \<Rightarrow> ustr" where
  "last_chars n c = drop (length c - n) c"

text \<open>What \<open>merge_chunks\<close> returns from the state of its loop: the chunks, and the buffer
  when it is not empty.\<close>

definition emitted :: "ustr list \<times> ustr \<Rightarrow> ustr list" where
  "emitted st = (case st of (chunks, cur) \<Rightarrow> if cur \<noteq> [] then chunks @ [cur] else chunks)"

text \<open>\<open>d\<close> starts with the overlap taken from the non-empty chunk \<open>c\<close>.\<close>

definition carried :: "int \<Rightarrow> ustr \<Rightarrow> ustr \<Rightarrow> bool" where
  "carried ov c d \<longleftrightarrow> c \<noteq> [] \<and> prefix (last_chars (min (nat ov) (length c)) c) d"

text \<open>A document with the header lines \<open># A\<close>, \<open>## B\<close> and \<open># C\<close>, in this order.\<close>

definition abc_doc :: ustr where
  "abc_doc = ustr_of ''# A'' @ [10] @ ustr_of ''## B'' @ [10] @ ustr_of ''# C''"

text \<open>
  The size bound of a chunk \<open>c\<close> over the segments \<open>S\<close>: \<open>c\<close> has at most
  \<open>chunk_size + chunk_overlap\<close> characters, or it is the carried overlap followed by one
  segment that is longer than the chunk size.
\<close>

definition within_bound :: "int \<Rightarrow> int \<Rightarrow> ustr set \<Rightarrow> ustr \<Rightarrow> bool" where
  "within_bound cs ov S c \<longleftrightarrow>
     int (length c) \<le> cs + ov \<or>
     (\<exists>s\<in>S. \<exists>x. c = x @ s \<and> int (length x) \<le> ov \<and> cs < int (length s))"

text \<open>
  What the fixed-width loop returns for a positive chunk size: consecutive pieces of
  \<open>n\<close> characters, the last one possibly shorter.
\<close>

function chop :: "nat \<Rightarrow> ustr \<Rightarrow> ustr list" where
  "chop n t = (if n = 0 \<or> t = [] then [] else take n t # chop n (drop n t))"
  by pat_completeness auto
termination
  by (relation "measure (\<lambda>(n, t). length t)") auto

declare chop.simps [simp del]

text \<open>
  A piece as \<open>recursive_split\<close> returns them: not empty, at most \<open>chunk_size\<close> characters,
  and not empty after trimming unless it has exactly \<open>chunk_size\<close> characters.
\<close>

definition piece_ok :: "int \<Rightarrow> ustr \<Rightarrow> bool" where
  "piece_ok cs p \<longleftrightarrow> p \<noteq> [] \<and> int (length p) \<le> cs \<and> (strip p \<noteq> [] \<or> int (length p) = cs)"

text \<open>
  A gap that \<open>recursive_split\<close> gives back as it is: it has no whitespace at either end
  and it fits the chunk size or holds none of the separators.
\<close>

definition verbatim :: "int \<Rightarrow> ustr \<Rightarrow> bool" where
  "verbatim cs g \<longleftrightarrow>
     strip g = g \<and> (int (length g) \<le> cs \<or> (\<forall>sep\<in>set separators. \<not> occurs sep g))"

text \<open>
  The ranges are sorted, do not overlap and lie in the text, and every gap before,
  between and after them is \<open>verbatim\<close>. The third argument is the end of the range
  before.
\<close>

fun gaps_verbatim :: "int \<Rightarrow> ustr \<Rightarrow> nat \<Rightarrow> (nat \<times> nat) list \<Rightarrow> bool" where
  "gaps_verbatim cs t last_index [] \<longleftrightarrow>
     last_index \<le> length t \<and> verbatim cs (drop last_index t)"
| "gaps_verbatim cs t last_index ((a, b) # ps) \<longleftrightarrow>
     last_index \<le> a \<and> a \<le> b \<and> b \<le> length t \<and> verbatim cs (slice t last_index a) \<and>
     gaps_verbatim cs t b ps"

text \<open>A text with a link between two letters.\<close>

definition link_doc :: ustr where
  "link_doc = ustr_of ''x[a](b)y''"

text \<open>
  A character that is neither whitespace nor part of a separator: \<open>recursive_split\<close> can
  neither trim it away nor split at it.
\<close>

definition ordinary :: "nat \<Rightarrow> bool" where
  "ordinary c \<longleftrightarrow> \<not> is_space c \<and> c \<notin> set (concat separators)"

text \<open>A link followed by a letter.\<close>

definition link_c_doc :: ustr where
  "link_c_doc = ustr_of ''[a](b)c''"

text \<open>
  The header chain that one scan from top to bottom leaves: level \<open>k\<close> holds the trimmed
  title of the last header line of level \<open>k\<close> or less, when that line is of level \<open>k\<close>;
  with no such line it holds what it held before the scan. The header lines are given as
  \<open>findall\<close> returns them, the hashes and the title.
\<close>

definition chain_at :: "headers \<Rightarrow> (ustr \<times> ustr) list \<Rightarrow> nat \<Rightarrow> ustr option" where
  "chain_at hs ms k =
     (case rev (filter (\<lambda>m. length (fst m) \<le> k) ms) of
        [] \<Rightarrow> map_of hs k
      | m # earlier \<Rightarrow> if length (fst m) = k then Some (strip (snd m)) else None)"

text \<open>A document with a header, a paragraph, a header one level down and a paragraph.\<close>

definition nested_doc :: ustr where
  "nested_doc = ustr_of ''# A'' @ [10, 10] @ ustr_of ''xx'' @ [10, 10] @ ustr_of ''## B''
     @ [10, 10] @ ustr_of ''yy''"





section \<open>Evaluation\<close>

lemmas rx_eval = finditer_def scan.simps rep.simps dot_def is_space_def any_char_def Let_def
  ustr_of_def group_def lit_def

lemmas header_eval = header_rx_def findall_headers_def update_from_text_def header_step_def
  get_headers_def strip_def

lemmas split_eval = split_def TextSplitter_def extract_protected_ranges_def protect_patterns_def
  link_tail_def split_preserving_protected_def recursive_split.simps py_split_def separators_def
  merge_chunks_def overlap_def add_header_def slice_def py_slice_def py_slice_from_def
  norm_index_def extend_all_def fixed_width.simps less_eq_prod_def

lemma split_title_doc:
  "split (TextSplitter 200 50) title_doc =
     Some ([ustr_of ''Title'' @ [10, 10] @ title_doc],
           \<lparr>chunk_size = 200, chunk_overlap = 50, header_tracker = [(1, ustr_of ''Title'')]\<rparr>)"
  by (simp add: title_doc_def rx_eval header_eval split_eval)

section \<open>The single short document (C3)\<close>

text \<open>
  C3, as stated: for the input \<open># Title\n\nSome short paragraph.\<close> with chunk size 200 and
  overlap 50, \<open>split\<close> returns exactly one chunk, equal to
  \<open>Title\n\nSome short paragraph.\<close>. The code returns one chunk, but the header line is
  not removed from the text it prefixes, so the chunk is not the one the claim gives.
\<close>

theorem split_title_doc_not_stripped:
  "map_option fst (split (TextSplitter 200 50) title_doc)
     \<noteq> Some [ustr_of ''Title'' @ [10, 10] @ ustr_of ''Some short paragraph.'']"
  by (simp add: split_title_doc) (simp add: title_doc_def ustr_of_def)

text \<open>
  C3, amended: \<open>split\<close> returns exactly one chunk, the header path \<open>Title\<close>, a blank line
  and then the whole document, header line included:
  \<open>Title\n\n# Title\n\nSome short paragraph.\<close>
\<close>

theorem split_title_doc_one_chunk:
  "map_option fst (split (TextSplitter 200 50) title_doc)
     = Some [ustr_of ''Title'' @ [10, 10] @ ustr_of ''# Title'' @ [10, 10]
               @ ustr_of ''Some short paragraph.'']"
  by (simp add: split_title_doc) (simp add: title_doc_def)

section \<open>The overlap between consecutive chunks (C4)\<close>

lemma merge_chunks_emitted: "merge_chunks cs ov segs = emitted (merge_loop cs ov segs ([], []))"
  by (simp add: merge_chunks_def emitted_def)

lemma overlap_nonneg:
  "0 \<le> ov \<Longrightarrow> prefix (last_chars (min (nat ov) (length c)) c) (overlap ov c)"
  by (auto simp: overlap_def last_chars_def py_slice_from_def norm_index_def min_def
      nat_diff_distrib')

lemma overlap_nonempty: "0 \<le> ov \<Longrightarrow> c \<noteq> [] \<Longrightarrow> overlap ov c \<noteq> []"
  by (auto simp: overlap_def py_slice_from_def norm_index_def)

lemma overlap_length: "0 < ov \<Longrightarrow> int (length (overlap ov c)) \<le> ov"
  by (auto simp: overlap_def py_slice_from_def norm_index_def)

lemma successively_snoc:
  "successively P (xs @ [y]) \<longleftrightarrow> successively P xs \<and> (xs = [] \<or> P (last xs) y)"
  by (auto simp: successively_append_iff)

lemma successively_nth:
  "successively P xs \<Longrightarrow> Suc i < length xs \<Longrightarrow> P (xs ! i) (xs ! Suc i)"
proof (induction P xs arbitrary: i rule: successively.induct)
  case (3 P x y xs)
  then show ?case by (cases i) auto
qed auto

lemma merge_loop_carried:
  assumes "0 \<le> ov"
    and "successively (carried ov) (chunks @ [cur])"
    and "chunks \<noteq> [] \<longrightarrow> cur \<noteq> []"
  shows "successively (carried ov) (emitted (merge_loop cs ov segs (chunks, cur)))"
  using assms(2,3)
proof (induction segs arbitrary: chunks cur)
  case Nil
  then show ?case by (auto simp: emitted_def successively_snoc)
next
  case (Cons seg segs)
  show ?case
  proof (cases "cs < int (length cur) + int (length seg)")
    case flush: True
    show ?thesis
    proof (cases "cur = []")
      case True
      with Cons.prems have "chunks = []" by auto
      with True flush Cons.IH [of "[]" "overlap ov [] @ seg"] show ?thesis by simp
    next
      case False
      have "carried ov cur (overlap ov cur @ seg)"
        using overlap_nonneg [OF assms(1), of cur] False by (auto simp: carried_def prefix_def)
      moreover have "overlap ov cur @ seg \<noteq> []"
        using overlap_nonempty [OF assms(1) False] by simp
      moreover have "successively (carried ov) ((chunks @ [cur]) @ [overlap ov cur @ seg])"
        using Cons.prems(1) calculation(1) unfolding successively_snoc [of _ "chunks @ [cur]"]
        by simp
      ultimately have "successively (carried ov)
          (emitted (merge_loop cs ov segs (chunks @ [cur], overlap ov cur @ seg)))"
        by (intro Cons.IH) auto
      with flush False show ?thesis by simp
    qed
  next
    case False
    have "successively (carried ov) (chunks @ [cur @ seg])"
      using Cons.prems by (auto simp: successively_snoc carried_def prefix_def)
    moreover have "chunks \<noteq> [] \<longrightarrow> cur @ seg \<noteq> []" using Cons.prems by auto
    ultimately show ?thesis using False Cons.IH [of chunks "cur @ seg"] by simp
  qed
qed

text \<open>
  C4: for every segment list and every chunk overlap that is not negative, whenever
  \<open>merge_chunks\<close> emits two consecutive chunks \<open>C\<^sub>i\<close> and \<open>C\<^sub>i\<^sub>+\<^sub>1\<close>, the chunk \<open>C\<^sub>i\<close> is not empty
  and the first \<open>min(chunk_overlap, len(C\<^sub>i))\<close> characters of \<open>C\<^sub>i\<^sub>+\<^sub>1\<close> are the last
  \<open>min(chunk_overlap, len(C\<^sub>i))\<close> characters of \<open>C\<^sub>i\<close> (all of \<open>C\<^sub>i\<close> when it is shorter than the
  overlap).
\<close>

theorem merge_chunks_overlap:
  assumes "0 \<le> ov" and "Suc i < length (merge_chunks cs ov segs)"
  shows "merge_chunks cs ov segs ! i \<noteq> [] \<and>
         take (min (nat ov) (length (merge_chunks cs ov segs ! i)))
              (merge_chunks cs ov segs ! Suc i)
           = last_chars (min (nat ov) (length (merge_chunks cs ov segs ! i)))
               (merge_chunks cs ov segs ! i)"
proof -
  have "successively (carried ov) (merge_chunks cs ov segs)"
    unfolding merge_chunks_emitted using assms(1) by (intro merge_loop_carried) auto
  from successively_nth [OF this assms(2)]
  have c: "carried ov (merge_chunks cs ov segs ! i) (merge_chunks cs ov segs ! Suc i)" .
  then obtain r where "merge_chunks cs ov segs ! Suc i =
      last_chars (min (nat ov) (length (merge_chunks cs ov segs ! i)))
        (merge_chunks cs ov segs ! i) @ r"
    by (auto simp: carried_def prefix_def)
  moreover have "length (last_chars (min (nat ov) (length c)) c) = min (nat ov) (length c)"
    for c :: ustr
    by (simp add: last_chars_def)
  ultimately show ?thesis using c by (simp add: carried_def)
qed

lemma merge_two_segments:
  "merge_chunks 2 1 [[97, 98], [99, 100]] = [[97, 98], [98, 99, 100]]"
  by (simp add: merge_chunks_def overlap_def py_slice_from_def norm_index_def)

theorem merge_chunks_overlap_witness:
  "(0::int) \<le> 1 \<and> Suc 0 < length (merge_chunks 2 1 [[97, 98], [99, 100]]) \<and>
   merge_chunks 2 1 [[97, 98], [99, 100]] ! 0 \<noteq> [] \<and>
   take (min (nat 1) (length (merge_chunks 2 1 [[97, 98], [99, 100]] ! 0)))
        (merge_chunks 2 1 [[97, 98], [99, 100]] ! Suc 0)
     = last_chars (min (nat 1) (length (merge_chunks 2 1 [[97, 98], [99, 100]] ! 0)))
         (merge_chunks 2 1 [[97, 98], [99, 100]] ! 0)"
proof -
  have h1: "(0::int) \<le> 1" by simp
  have h2: "Suc 0 < length (merge_chunks 2 1 [[97, 98], [99, 100]])"
    by (simp add: merge_two_segments)
  from merge_chunks_overlap [OF h1 h2] h1 h2 show ?thesis by blast
qed

section \<open>The size of the chunks (C5)\<close>

lemma merge_loop_bound:
  assumes "0 < ov" and "set segs \<subseteq> S"
    and "\<forall>c\<in>set chunks. within_bound cs ov S c"
    and "cur \<noteq> [] \<longrightarrow> within_bound cs ov S cur"
  shows "\<forall>c\<in>set (emitted (merge_loop cs ov segs (chunks, cur))). within_bound cs ov S c"
  using assms(2-4)
proof (induction segs arbitrary: chunks cur)
  case Nil
  then show ?case by (auto simp: emitted_def)
next
  case (Cons seg segs)
  show ?case
  proof (cases "cs < int (length cur) + int (length seg)")
    case True
    have "within_bound cs ov S (overlap ov cur @ seg)"
    proof (cases "cs < int (length seg)")
      case True
      with Cons.prems(1) overlap_length [OF assms(1), of cur] show ?thesis
        unfolding within_bound_def by auto
    next
      case False
      with overlap_length [OF assms(1), of cur] show ?thesis
        unfolding within_bound_def by auto
    qed
    moreover have "\<forall>c\<in>set (if cur \<noteq> [] then chunks @ [cur] else chunks). within_bound cs ov S c"
      using Cons.prems by auto
    ultimately have "\<forall>c\<in>set (emitted (merge_loop cs ov segs
        (if cur \<noteq> [] then chunks @ [cur] else chunks, overlap ov cur @ seg))). within_bound cs ov S c"
      using Cons.prems(1) by (intro Cons.IH) auto
    with True show ?thesis by simp
  next
    case False
    then have "within_bound cs ov S (cur @ seg)"
      using assms(1) unfolding within_bound_def by auto
    with False Cons.prems Cons.IH [of chunks "cur @ seg"] show ?thesis by simp
  qed
qed

text \<open>
  With a chunk overlap of at least one, every chunk of \<open>merge_chunks\<close> has at most
  \<open>chunk_size + chunk_overlap\<close> characters unless it is the carried overlap followed by a
  single segment longer than the chunk size.
\<close>

lemma merge_chunks_bound:
  "0 < ov \<Longrightarrow> c \<in> set (merge_chunks cs ov segs) \<Longrightarrow> within_bound cs ov (set segs) c"
  using merge_loop_bound [of ov segs "set segs" "[]" cs "[]"]
  by (simp add: merge_chunks_emitted)

text \<open>
  C5 says: every chunk of \<open>merge_chunks\<close> that does not contain a single oversized
  protected segment has at most \<open>chunk_size + chunk_overlap\<close> characters. With
  \<open>chunk_overlap = 0\<close> the slice \<open>current_chunk[-0:]\<close> is the whole buffer, not the empty
  string, so every chunk carries all of the chunk before it: for chunk size 2, overlap 0
  and the text \<open>ab\ncd\nef\<close> the segments are \<open>ab\<close>, \<open>cd\<close>, \<open>ef\<close>, none of them protected or
  longer than 2, and the last chunk has 6 characters.
\<close>

theorem zero_overlap_chunks_grow:
  "map_option fst (split (TextSplitter 2 0)
       (ustr_of ''ab'' @ [10] @ ustr_of ''cd'' @ [10] @ ustr_of ''ef''))
     = Some [ustr_of ''ab'', ustr_of ''abcd'', ustr_of ''abcdef'']
   \<and> extract_protected_ranges (ustr_of ''ab'' @ [10] @ ustr_of ''cd'' @ [10] @ ustr_of ''ef'') = []
   \<and> \<not> int (length (ustr_of ''abcdef'')) \<le> 2 + 0"
  by (simp add: rx_eval header_eval split_eval)

section \<open>The header tracker (C6)\<close>

lemma map_of_filter_key:
  "map_of (filter (\<lambda>(k, v). P k) xs) k = (if P k then map_of xs k else None)"
  by (induction xs) auto

lemma findall_abc_doc:
  "findall_headers abc_doc = [([35], [65]), ([35, 35], [66]), ([35], [67])]"
  by (simp add: abc_doc_def rx_eval header_eval)

text \<open>
  C6: \<open>update_from_text\<close> processes the header lines in the order of the document; a header
  of level \<open>L\<close> sets entry \<open>L\<close> to the trimmed title, deletes every entry of a level above
  \<open>L\<close> and keeps the entries below \<open>L\<close>; scanning \<open># A\<close>, \<open>## B\<close>, \<open># C\<close> gives the header
  path \<open>C\<close>.
\<close>

theorem header_step_clears_deeper:
  "update_from_text hs t = foldl header_step hs (findall_headers t)
   \<and> map_of (header_step hs (hashes, title)) (length hashes) = Some (strip title)
   \<and> (\<forall>k. length hashes < k \<longrightarrow> map_of (header_step hs (hashes, title)) k = None)
   \<and> (\<forall>k. k < length hashes \<longrightarrow> map_of (header_step hs (hashes, title)) k = map_of hs k)
   \<and> findall_headers abc_doc = [(ustr_of ''#'', ustr_of ''A''), (ustr_of ''##'', ustr_of ''B''),
        (ustr_of ''#'', ustr_of ''C'')]
   \<and> get_headers (update_from_text [] abc_doc) = ustr_of ''C''"
proof -
  have "header_step hs (hashes, title) =
      filter (\<lambda>(k, v). \<not> length hashes < k) (AList.update (length hashes) (strip title) hs)"
    by (simp add: header_step_def Let_def)
  then have "map_of (header_step hs (hashes, title)) k =
      (if \<not> length hashes < k then ((map_of hs)(length hashes \<mapsto> strip title)) k else None)" for k
    by (simp add: map_of_filter_key update_conv')
  moreover have "get_headers (update_from_text [] abc_doc) = ustr_of ''C''"
    unfolding update_from_text_def findall_abc_doc
    by (simp add: header_step_def Let_def get_headers_def strip_def is_space_def ustr_of_def)
  ultimately show ?thesis
    by (simp add: update_from_text_def findall_abc_doc ustr_of_def)
qed

theorem header_step_clears_deeper_witness:
  "length (ustr_of ''#'') < 2
   \<and> map_of (header_step [(1, ustr_of ''A''), (2, ustr_of ''B'')] (ustr_of ''#'', ustr_of ''C'')) 2 = None
   \<and> 1 < length (ustr_of ''##'')
   \<and> map_of (header_step [(1, ustr_of ''A'')] (ustr_of ''##'', ustr_of ''B'')) 1
       = map_of [(1::nat, ustr_of ''A'')] 1"
proof -
  have h1: "length (ustr_of ''#'') < 2" and h2: "1 < length (ustr_of ''##'')"
    by (simp_all add: ustr_of_def)
  have "\<forall>k. length (ustr_of ''#'') < k \<longrightarrow>
      map_of (header_step [(1, ustr_of ''A''), (2, ustr_of ''B'')] (ustr_of ''#'', ustr_of ''C'')) k = None"
    using header_step_clears_deeper
      [of "[(1, ustr_of ''A''), (2, ustr_of ''B'')]" "[]" "ustr_of ''#''" "ustr_of ''C''"]
    by (elim conjE)
  from spec [OF this, of 2] h1
  have a: "map_of (header_step [(1, ustr_of ''A''), (2, ustr_of ''B'')]
      (ustr_of ''#'', ustr_of ''C'')) 2 = None"
    by (rule mp)
  have "\<forall>k. k < length (ustr_of ''##'') \<longrightarrow>
      map_of (header_step [(1, ustr_of ''A'')] (ustr_of ''##'', ustr_of ''B'')) k
        = map_of [(1::nat, ustr_of ''A'')] k"
    using header_step_clears_deeper [of "[(1, ustr_of ''A'')]" "[]" "ustr_of ''##''" "ustr_of ''B''"]
    by (elim conjE)
  from spec [OF this, of 1] h2
  have b: "map_of (header_step [(1, ustr_of ''A'')] (ustr_of ''##'', ustr_of ''B'')) 1
       = map_of [(1::nat, ustr_of ''A'')] 1"
    by (rule mp)
  show ?thesis by (intro conjI h1 h2 a b)
qed

section \<open>The fixed-width loop\<close>

lemma fixed_width_chop:
  assumes "0 < cs"
  shows "start \<le> length t \<Longrightarrow>
    fixed_width cs t (int start) acc = Some (acc @ chop (nat cs) (drop start t))"
proof (induction "length t - start" arbitrary: start acc rule: less_induct)
  case less
  show ?case
  proof (cases "start < length t")
    case False
    with less.prems have "start = length t" by simp
    then show ?thesis
      by (subst fixed_width.simps) (simp add: chop.simps)
  next
    case True
    define e where "e = min (start + nat cs) (length t)"
    have e: "int e = min (int start + cs) (int (length t))"
      using assms unfolding e_def min_def by (auto; linarith)
    have "start < e" "e \<le> length t" using True assms by (auto simp: e_def)
    then have IH: "fixed_width cs t (int e) acc' = Some (acc' @ chop (nat cs) (drop e t))" for acc'
      using less.hyps [of e acc'] by simp
    have sl: "py_slice t (int start) (int e) = take (nat cs) (drop start t)"
      using \<open>start < e\<close> \<open>e \<le> length t\<close>
      by (auto simp: py_slice_def norm_index_def slice_def e_def min_def)
    have dr: "drop e t = drop (nat cs) (drop start t)"
      by (auto simp: e_def min_def add.commute)
    have "drop start t \<noteq> []" using True by simp
    then have ch: "chop (nat cs) (drop start t) =
        take (nat cs) (drop start t) # chop (nat cs) (drop (nat cs) (drop start t))"
      using assms by (subst chop.simps) simp
    have "fixed_width cs t (int start) acc
        = fixed_width cs t (int e) (acc @ [py_slice t (int start) (int e)])"
      using True by (subst fixed_width.simps) (simp add: e)
    then show ?thesis by (simp add: IH sl dr ch)
  qed
qed

lemma fixed_width_diverges:
  assumes "fixed_width cs t start acc = Some y"
  shows "\<not> (cs \<le> 0 \<and> start \<le> 0 \<and> t \<noteq> [])"
proof (rule fixed_width.raw_induct
    [where P = "\<lambda>cs t start acc y. \<not> (cs \<le> 0 \<and> start \<le> 0 \<and> t \<noteq> [])", OF _ assms],
    goal_cases)
  case (1 fw cs t start acc y)
  show ?case
  proof
    assume a: "cs \<le> 0 \<and> start \<le> 0 \<and> t \<noteq> []"
    then have "start < int (length t)" by (cases t) auto
    with 1(2) have "fw cs t (min (start + cs) (int (length t)))
        (acc @ [py_slice t start (min (start + cs) (int (length t)))]) = Some y"
      by simp
    from 1(1) [OF this] a show False by auto
  qed
qed

lemma fixed_width_None:
  "cs \<le> 0 \<Longrightarrow> t \<noteq> [] \<Longrightarrow> fixed_width cs t 0 acc = None"
  using fixed_width_diverges [of cs t 0 acc] by (cases "fixed_width cs t 0 acc") auto

lemma chop_pieces:
  "0 < n \<Longrightarrow> p \<in> set (chop n t) \<Longrightarrow>
     p \<noteq> [] \<and> length p \<le> n \<and> (length p = n \<or> suffix p t)"
proof (induction n t rule: chop.induct)
  case (1 n t)
  show ?case
  proof (cases "t = []")
    case True
    with 1(3) show ?thesis by (simp add: chop.simps)
  next
    case False
    with 1(2,3) have "p = take n t \<or> p \<in> set (chop n (drop n t))"
      by (subst (asm) chop.simps) auto
    then show ?thesis
    proof
      assume p: "p = take n t"
      show ?thesis
      proof (cases "length t < n")
        case True
        with p have "p = t" by simp
        with False True show ?thesis by simp
      next
        case False
        with p \<open>t \<noteq> []\<close> 1(2) show ?thesis by auto
      qed
    next
      assume "p \<in> set (chop n (drop n t))"
      with 1(1) [OF _ 1(2)] False 1(2)
      have "p \<noteq> [] \<and> length p \<le> n \<and> (length p = n \<or> suffix p (drop n t))" by simp
      moreover have "suffix (drop n t) t" by (rule suffix_drop)
      ultimately show ?thesis using suffix_order.trans by blast
    qed
  qed
qed

lemma concat_chop: "0 < n \<Longrightarrow> concat (chop n t) = t"
proof (induction n t rule: chop.induct)
  case (1 n t)
  then show ?case by (subst chop.simps) auto
qed

section \<open>Trimming\<close>

lemma strip_Nil_iff: "strip t = [] \<longleftrightarrow> (\<forall>c\<in>set t. is_space c)"
proof
  assume "strip t = []"
  then have "\<forall>c\<in>set (dropWhile is_space t). is_space c"
    by (simp add: strip_def dropWhile_eq_Nil_conv)
  then have "dropWhile is_space t = []"
    using hd_dropWhile [of is_space t] hd_in_set [of "dropWhile is_space t"] by blast
  then show "\<forall>c\<in>set t. is_space c" by (simp add: dropWhile_eq_Nil_conv)
next
  assume "\<forall>c\<in>set t. is_space c"
  then show "strip t = []"
    by (auto simp: strip_def dropWhile_eq_Nil_conv dest: set_dropWhileD)
qed

lemma last_strip: "strip t \<noteq> [] \<Longrightarrow> \<not> is_space (last (strip t))"
  unfolding strip_def using hd_dropWhile [of is_space "rev (dropWhile is_space t)"]
  by (simp add: last_rev)

lemma hd_strip: "strip t \<noteq> [] \<Longrightarrow> \<not> is_space (hd (strip t))"
proof -
  assume a: "strip t \<noteq> []"
  have n: "dropWhile is_space t \<noteq> []"
  proof
    assume d: "dropWhile is_space t = []"
    have "strip t = []" unfolding strip_def d by simp
    with a show False by simp
  qed
  have "suffix (dropWhile is_space (rev (dropWhile is_space t))) (rev (dropWhile is_space t))"
    by (rule suffix_dropWhile)
  then have "prefix (strip t) (dropWhile is_space t)"
    by (simp add: suffix_to_prefix strip_def)
  with a have "hd (strip t) = hd (dropWhile is_space t)"
    by (cases "strip t") (auto simp: prefix_def)
  with n hd_dropWhile [of is_space t] show ?thesis by simp
qed

lemma strip_idem: "strip (strip t) = strip t"
proof (cases "strip t = []")
  case True
  moreover have "strip [] = []" by (simp add: strip_def)
  ultimately show ?thesis by simp
next
  case False
  from hd_strip [OF False] False have "dropWhile is_space (strip t) = strip t"
    by (cases "strip t") auto
  moreover from last_strip [OF False] False
  have "dropWhile is_space (rev (strip t)) = rev (strip t)"
    by (cases "strip t" rule: rev_cases) auto
  ultimately show ?thesis by (simp add: strip_def [of "strip t"])
qed

lemma length_strip: "length (strip t) \<le> length t"
proof -
  have "length (strip t) \<le> length (rev (dropWhile is_space t))"
    unfolding strip_def length_rev [of "dropWhile is_space (rev (dropWhile is_space t))"]
    by (rule length_dropWhile_le)
  also have "\<dots> \<le> length t" by (simp add: length_dropWhile_le)
  finally show ?thesis .
qed

section \<open>recursive\_split returns, and what its pieces are\<close>

lemma those_map_Some:
  "(\<forall>x\<in>set xs. f x \<noteq> None) \<Longrightarrow> those (map f xs) = Some (map (the \<circ> f) xs)"
  by (induction xs) auto

lemma extend_all_Some:
  assumes "\<forall>x\<in>set xs. \<exists>ps. f x = Some ps \<and> (\<forall>p\<in>set ps. Q p)"
  shows "\<exists>r. extend_all (map f xs) = Some r \<and> (\<forall>p\<in>set r. Q p)"
proof -
  from assms have "those (map f xs) = Some (map (the \<circ> f) xs)"
    by (intro those_map_Some) auto
  then have "extend_all (map f xs) = Some (concat (map (the \<circ> f) xs))"
    by (simp add: extend_all_def)
  moreover have "\<forall>p\<in>set (concat (map (the \<circ> f) xs)). Q p"
    using assms by fastforce
  ultimately show ?thesis by blast
qed

lemma suffix_piece_not_blank:
  assumes "strip t \<noteq> []" and "suffix p (strip t)" and "p \<noteq> []"
  shows "strip p \<noteq> []"
proof -
  from assms(2,3) have "last p = last (strip t)"
    by (auto simp: suffix_def)
  with last_strip [OF assms(1)] assms(3) have "\<exists>c\<in>set p. \<not> is_space c"
    using last_in_set [of p] by metis
  then show ?thesis by (simp add: strip_Nil_iff)
qed

lemma recursive_split_pieces:
  "0 < cs \<Longrightarrow> \<exists>ps. recursive_split cs t = Some ps \<and> (\<forall>p\<in>set ps. piece_ok cs p)"
proof (induction cs t rule: recursive_split.induct)
  case (1 cs t)
  show ?case
  proof (cases "strip t = []")
    case True
    then show ?thesis by (subst recursive_split.simps) simp
  next
    case ne: False
    show ?thesis
    proof (cases "int (length (strip t)) \<le> cs")
      case True
      with ne show ?thesis
        by (subst recursive_split.simps) (simp add: piece_ok_def strip_idem)
    next
      case big: False
      show ?thesis
      proof (cases "find (\<lambda>sep. occurs sep (strip t)) separators")
        case (Some sep)
        have "\<forall>x\<in>set (py_split sep (strip t)).
            \<exists>ps. recursive_split cs x = Some ps \<and> (\<forall>p\<in>set ps. piece_ok cs p)"
          using "1.IH" [OF ne big Some] "1.prems" by blast
        from extend_all_Some [OF this] ne big Some show ?thesis
          by (subst recursive_split.simps) simp
      next
        case None
        have fw: "fixed_width cs (strip t) 0 [] = Some (chop (nat cs) (strip t))"
          using fixed_width_chop [OF "1.prems", of 0 "strip t" "[]"] by simp
        have "piece_ok cs p" if "p \<in> set (chop (nat cs) (strip t))" for p
        proof -
          from chop_pieces [OF _ that] "1.prems"
          have p: "p \<noteq> []" "length p \<le> nat cs" "length p = nat cs \<or> suffix p (strip t)"
            by auto
          from p(3) show ?thesis
          proof
            assume "length p = nat cs"
            with p "1.prems" show ?thesis by (simp add: piece_ok_def)
          next
            assume "suffix p (strip t)"
            from suffix_piece_not_blank [OF ne this p(1)] p "1.prems" show ?thesis
              by (simp add: piece_ok_def)
          qed
        qed
        with ne big None fw show ?thesis
          by (subst recursive_split.simps) simp
      qed
    qed
  qed
qed

lemma protected_loop_segments:
  assumes "0 < cs"
  shows "\<exists>segs last. protected_loop cs t ps last_index acc = Some (segs, last) \<and>
     set acc \<subseteq> set segs \<and> (\<forall>(a, b)\<in>set ps. slice t a b \<in> set segs) \<and>
     (\<forall>s\<in>set segs. s \<in> set acc \<or> piece_ok cs s \<or> (\<exists>(a, b)\<in>set ps. s = slice t a b))"
proof (induction ps arbitrary: last_index acc)
  case Nil
  then show ?case by simp
next
  case (Cons p ps)
  obtain a b where p: "p = (a, b)" by (cases p)
  show ?case
  proof (cases "last_index < a")
    case True
    from recursive_split_pieces [OF assms, of "slice t last_index a"]
    obtain r where r: "recursive_split cs (slice t last_index a) = Some r"
      "\<forall>q\<in>set r. piece_ok cs q" by blast
    from Cons.IH [of b "acc @ r @ [slice t a b]"]
    obtain segs l where "protected_loop cs t ps b (acc @ r @ [slice t a b]) = Some (segs, l)"
      "set (acc @ r @ [slice t a b]) \<subseteq> set segs" "\<forall>(a, b)\<in>set ps. slice t a b \<in> set segs"
      "\<forall>s\<in>set segs. s \<in> set (acc @ r @ [slice t a b]) \<or> piece_ok cs s
          \<or> (\<exists>(a, b)\<in>set ps. s = slice t a b)"
      by blast
    with True r p show ?thesis by fastforce
  next
    case False
    from Cons.IH [of b "acc @ [slice t a b]"]
    obtain segs l where "protected_loop cs t ps b (acc @ [slice t a b]) = Some (segs, l)"
      "set (acc @ [slice t a b]) \<subseteq> set segs" "\<forall>(a, b)\<in>set ps. slice t a b \<in> set segs"
      "\<forall>s\<in>set segs. s \<in> set (acc @ [slice t a b]) \<or> piece_ok cs s
          \<or> (\<exists>(a, b)\<in>set ps. s = slice t a b)"
      by blast
    with False p show ?thesis by fastforce
  qed
qed

lemma split_preserving_protected_segments:
  assumes "0 < cs"
  shows "\<exists>segs. split_preserving_protected cs t ps = Some segs \<and>
     (\<forall>(a, b)\<in>set ps. slice t a b \<in> set segs) \<and>
     (\<forall>s\<in>set segs. piece_ok cs s \<or> (\<exists>(a, b)\<in>set ps. s = slice t a b))"
proof -
  from protected_loop_segments [OF assms, of t ps 0 "[]"]
  obtain segs l where l: "protected_loop cs t ps 0 [] = Some (segs, l)"
    "\<forall>(a, b)\<in>set ps. slice t a b \<in> set segs"
    "\<forall>s\<in>set segs. piece_ok cs s \<or> (\<exists>(a, b)\<in>set ps. s = slice t a b)"
    by auto
  from recursive_split_pieces [OF assms, of "drop l t"]
  obtain r where r: "recursive_split cs (drop l t) = Some r" "\<forall>q\<in>set r. piece_ok cs q"
    by blast
  show ?thesis
  proof (cases "l < length t")
    case True
    with l r have "split_preserving_protected cs t ps = Some (segs @ r)"
      by (simp add: split_preserving_protected_def)
    with l r show ?thesis by fastforce
  next
    case False
    with l have "split_preserving_protected cs t ps = Some segs"
      by (simp add: split_preserving_protected_def)
    with l show ?thesis by fastforce
  qed
qed

lemma split_returns:
  "0 < chunk_size s \<Longrightarrow> \<exists>segs. split_preserving_protected (chunk_size s) t
        (extract_protected_ranges t) = Some segs \<and>
     split s t = Some (map (add_header (update_from_text (header_tracker s) t))
                         (merge_chunks (chunk_size s) (chunk_overlap s) segs),
                       s\<lparr>header_tracker := update_from_text (header_tracker s) t\<rparr>)"
  using split_preserving_protected_segments [of "chunk_size s" t "extract_protected_ranges t"]
  by (auto simp: split_def Let_def)

section \<open>The pieces of recursive\_split (C8)\<close>

lemma occurs_hd: "occurs sep t \<Longrightarrow> sep \<noteq> [] \<Longrightarrow> hd sep \<in> set t"
  by (induction t) (auto simp: prefix_def Cons_eq_append_conv)

lemma replicate_numeral_unfold: "replicate (numeral k) x = x # replicate (pred_numeral k) x"
  by (simp add: numeral_eq_Suc)

lemma recursive_split_blank_run:
  "recursive_split 200 (97 # replicate 400 32 @ [98])
     = Some [97 # replicate 199 32, replicate 200 32, [32, 98]]"
proof -
  let ?t = "97 # replicate 400 32 @ [98 :: nat]"
  have s: "strip ?t = ?t" by (simp add: strip_def is_space_def)
  have "\<not> occurs sep ?t" if "sep \<in> set separators" for sep
    using that occurs_hd [of sep ?t] by (auto simp: separators_def)
  then have f: "find (\<lambda>sep. occurs sep ?t) separators = None"
    by (simp add: find_None_iff)
  have "fixed_width 200 ?t 0 [] = Some (chop 200 ?t)"
    using fixed_width_chop [of 200 0 ?t "[]"] by simp
  moreover have "chop 200 ?t = [97 # replicate 199 32, replicate 200 32, [32, 98]]"
    by (simp add: chop.simps replicate_add [symmetric] take_Cons' drop_Cons'
        replicate_numeral_unfold [of _ "32::nat"])
  ultimately have fw: "fixed_width 200 ?t 0 []
      = Some [97 # replicate 199 32, replicate 200 32, [32, 98]]"
    by simp
  show ?thesis
    by (subst recursive_split.simps) (simp only: s f, simp add: fw)
qed

text \<open>
  C8, as stated: every piece returned by \<open>recursive_split\<close> is non-empty after trimming.
  The fixed-width fallback cuts a long text without separators every \<open>chunk_size\<close>
  characters and does not trim what it cuts: with the default chunk size 200, the text
  \<open>a\<close>, 400 spaces, \<open>b\<close> gives a second piece of 200 spaces.
\<close>

theorem recursive_split_blank_piece:
  "recursive_split 200 (97 # replicate 400 32 @ [98])
     = Some [97 # replicate 199 32, replicate 200 32, [32, 98]]
   \<and> strip (replicate 200 32) = []"
  by (simp add: recursive_split_blank_run strip_Nil_iff is_space_def)

text \<open>
  C8, amended: for a chunk size of at least one, \<open>recursive_split\<close> returns, and every
  piece it returns is non-empty and has at most \<open>chunk_size\<close> characters; a piece is
  non-empty after trimming unless it has exactly \<open>chunk_size\<close> characters (a full-width
  slice of the fixed-width fallback, which may consist of whitespace only).
\<close>

theorem recursive_split_pieces_nonempty:
  "0 < cs \<Longrightarrow> \<exists>ps. recursive_split cs t = Some ps \<and>
     (\<forall>p\<in>set ps. p \<noteq> [] \<and> int (length p) \<le> cs \<and> (strip p \<noteq> [] \<or> int (length p) = cs))"
  using recursive_split_pieces [of cs t] by (simp add: piece_ok_def)

theorem recursive_split_pieces_nonempty_witness:
  "(0::int) < 200 \<and> (\<exists>ps. recursive_split 200 (ustr_of ''a b'') = Some ps \<and>
     (\<forall>p\<in>set ps. p \<noteq> [] \<and> int (length p) \<le> 200 \<and> (strip p \<noteq> [] \<or> int (length p) = 200)))"
proof -
  have h: "(0::int) < 200" by simp
  from recursive_split_pieces_nonempty [OF h, of "ustr_of ''a b''"] h show ?thesis
    by (rule_tac conjI)
qed

section \<open>Totality (C9)\<close>

lemma split_empty_text: "split s [] = Some ([], s)"
  by (simp add: rx_eval header_eval split_eval)

lemma split_zero_size:
  "split (TextSplitter 0 50) (ustr_of ''a'') = None"
proof -
  have "recursive_split 0 [97] = None"
    by (subst recursive_split.simps)
      (simp add: strip_def is_space_def separators_def fixed_width_None)
  moreover have "extract_protected_ranges [97] = []"
    by (simp add: rx_eval extract_protected_ranges_def protect_patterns_def link_tail_def)
  ultimately show ?thesis
    by (simp add: split_def TextSplitter_def split_preserving_protected_def ustr_of_def)
qed

lemma in_set_dropWhile: "x \<in> set xs \<Longrightarrow> \<not> P x \<Longrightarrow> x \<in> set (dropWhile P xs)"
  by (induction xs) auto

lemma in_set_strip: "c \<in> set t \<Longrightarrow> \<not> is_space c \<Longrightarrow> c \<in> set (strip t)"
  by (simp add: strip_def in_set_dropWhile)

lemma split_from_keeps:
  "c \<notin> set sep \<Longrightarrow> c \<in> set acc \<union> set u \<Longrightarrow> \<exists>p\<in>set (split_from sep acc u). c \<in> set p"
proof (induction sep acc u rule: split_from.induct)
  case (1 sep acc)
  then show ?case by simp
next
  case (2 sep acc c' cs)
  show ?case
  proof (cases "sep \<noteq> [] \<and> prefix sep (c' # cs)")
    case True
    show ?thesis
    proof (cases "c \<in> set acc")
      case in_acc: True
      with True show ?thesis by simp
    next
      case False
      with "2.prems" have "c \<in> set (c' # cs)" by simp
      moreover from True have "c' # cs = sep @ drop (length sep) (c' # cs)"
        by (metis append_eq_conv_conj prefixE)
      ultimately have "c \<in> set sep \<union> set (drop (length sep) (c' # cs))"
        by (metis set_append)
      with "2.prems"(1) have "c \<in> set [] \<union> set (drop (length sep) (c' # cs))" by simp
      from "2.IH"(1) [OF True "2.prems"(1) this] True show ?thesis by auto
    qed
  next
    case False
    from "2.prems" have "c \<in> set (c' # acc) \<union> set cs" by auto
    from "2.IH"(2) [OF False "2.prems"(1) this] False show ?thesis by auto
  qed
qed

lemma those_None: "None \<in> set rs \<Longrightarrow> those rs = None"
  by (induction rs) (auto split: option.splits)

lemma extend_all_None: "p \<in> set ps \<Longrightarrow> f p = None \<Longrightarrow> extend_all (map f ps) = None"
  unfolding extend_all_def by (simp add: those_None image_iff rev_bexI)

lemma recursive_split_stuck:
  "cs \<le> 0 \<Longrightarrow> c \<in> set t \<Longrightarrow> ordinary c \<Longrightarrow> recursive_split cs t = None"
proof (induction cs t rule: recursive_split.induct)
  case (1 cs t)
  from "1.prems" have c: "c \<in> set (strip t)" by (simp add: ordinary_def in_set_strip)
  then have ne: "strip t \<noteq> []" by auto
  with "1.prems"(1) have big: "\<not> int (length (strip t)) \<le> cs" by (cases "strip t") auto
  show ?case
  proof (cases "find (\<lambda>sep. occurs sep (strip t)) separators")
    case None
    with ne big "1.prems"(1) show ?thesis
      by (subst recursive_split.simps) (simp add: fixed_width_None)
  next
    case (Some sep)
    then have "sep \<in> set separators" by (auto simp: find_Some_iff)
    with "1.prems"(3) have "c \<notin> set sep" by (auto simp: ordinary_def)
    with c obtain p where p: "p \<in> set (py_split sep (strip t))" "c \<in> set p"
      using split_from_keeps [of c sep "[]" "strip t"] by (auto simp: py_split_def)
    from "1.IH" [OF ne big Some p(1) "1.prems"(1) p(2) "1.prems"(3)]
    have "recursive_split cs p = None" .
    with p(1) have "extend_all (map (recursive_split cs) (py_split sep (strip t))) = None"
      by (rule extend_all_None)
    with ne big Some show ?thesis by (subst recursive_split.simps) simp
  qed
qed

lemma nth_in_slice: "a \<le> i \<Longrightarrow> i < b \<Longrightarrow> i < length t \<Longrightarrow> t ! i \<in> set (slice t a b)"
proof -
  assume a: "a \<le> i" "i < b" "i < length t"
  then have "take (b - a) (drop a t) ! (i - a) = t ! i" by simp
  moreover from a have "i - a < length (take (b - a) (drop a t))" by (simp, arith)
  ultimately show ?thesis unfolding slice_def by (metis nth_mem)
qed

lemma protected_loop_stuck:
  assumes "cs \<le> 0" and "i < length t" and "ordinary (t ! i)"
  shows "\<forall>(a, b)\<in>set ps. \<not> (a \<le> i \<and> i < b) \<Longrightarrow> last_index \<le> i \<Longrightarrow>
     protected_loop cs t ps last_index acc = None \<or>
     (\<exists>segs l. protected_loop cs t ps last_index acc = Some (segs, l) \<and> l \<le> i)"
proof (induction ps arbitrary: last_index acc)
  case Nil
  then show ?case by simp
next
  case (Cons p ps)
  obtain a b where p: "p = (a, b)" by (cases p)
  from Cons.prems(1) have rest: "\<forall>(a, b)\<in>set ps. \<not> (a \<le> i \<and> i < b)" by simp
  show ?case
  proof (cases "a \<le> i")
    case True
    with Cons.prems(1) p have b: "b \<le> i" by auto
    show ?thesis
    proof (cases "last_index < a")
      case gap: True
      show ?thesis
      proof (cases "recursive_split cs (slice t last_index a)")
        case None
        with gap p show ?thesis by simp
      next
        case (Some r)
        with gap p Cons.IH [OF rest b, of "acc @ r @ [slice t a b]"] show ?thesis by simp
      qed
    next
      case False
      with p Cons.IH [OF rest b, of "acc @ [slice t a b]"] show ?thesis by simp
    qed
  next
    case False
    with Cons.prems(2) have gap: "last_index < a" by simp
    from False Cons.prems(2) assms(2) have "t ! i \<in> set (slice t last_index a)"
      by (intro nth_in_slice) auto
    from recursive_split_stuck [OF assms(1) this assms(3)] gap p show ?thesis by simp
  qed
qed

lemma split_stuck:
  assumes "chunk_size s \<le> 0" and "i < length t" and "ordinary (t ! i)"
    and "\<forall>(a, b)\<in>set (extract_protected_ranges t). \<not> (a \<le> i \<and> i < b)"
  shows "split s t = None"
proof -
  have "split_preserving_protected (chunk_size s) t (extract_protected_ranges t) = None"
  proof (cases "protected_loop (chunk_size s) t (extract_protected_ranges t) 0 []")
    case None
    then show ?thesis by (simp add: split_preserving_protected_def)
  next
    case (Some r)
    with protected_loop_stuck [OF assms(1,2,3) assms(4), of 0 "[]"]
    obtain segs l where l: "r = (segs, l)" "l \<le> i" by auto
    with assms(2) have "t ! i \<in> set (drop l t)"
      using nth_in_slice [of l i "length t" t] by (simp add: slice_def)
    from recursive_split_stuck [OF assms(1) this assms(3)] Some l assms(2) show ?thesis
      by (simp add: split_preserving_protected_def)
  qed
  then show ?thesis by (simp add: split_def Let_def)
qed

lemma ranges_link_c_doc: "extract_protected_ranges link_c_doc = [(0, 6)]"
  by (simp add: link_c_doc_def rx_eval split_eval)

text \<open>
  C9, as stated: \<open>split("")\<close> returns no chunk, and every core function returns a result
  for any string. The first part holds for every instance. The second part fails for an
  instance with a chunk size that is not positive, which the constructor accepts: the
  fixed-width loop of \<open>recursive_split\<close> then never advances, and \<open>split("a")\<close> does not
  return.
\<close>

theorem split_zero_chunk_size_diverges:
  "split (TextSplitter 0 50) (ustr_of ''a'') = None"
  by (rule split_zero_size)

text \<open>
  C9, amended: \<open>split("")\<close> returns an empty chunk sequence and leaves the instance as it
  is, for every instance; and for every instance with a chunk size of at least one,
  \<open>recursive_split\<close>, \<open>split_preserving_protected\<close> (for any list of ranges) and \<open>split\<close>
  return a result for every string. (The other functions, \<open>update_from_text\<close>,
  \<open>get_headers\<close>, \<open>extract_protected_ranges\<close> and \<open>merge_chunks\<close>, have no loop that depends
  on the chunk size and are total functions here.) For an instance with a chunk size that
  is not positive, \<open>split\<close> does not return on any text that has, at an offset outside
  every protected range, a character that is neither whitespace nor part of a separator.
\<close>

theorem split_total:
  "split s [] = Some ([], s) \<and>
   (0 < chunk_size s \<longrightarrow>
      (\<exists>ps. recursive_split (chunk_size s) t = Some ps) \<and>
      (\<exists>segs. split_preserving_protected (chunk_size s) t ranges = Some segs) \<and>
      (\<exists>chunks s'. split s t = Some (chunks, s'))) \<and>
   (chunk_size z \<le> 0 \<and> i < length u \<and> ordinary (u ! i) \<and>
      (\<forall>(a, b)\<in>set (extract_protected_ranges u). \<not> (a \<le> i \<and> i < b)) \<longrightarrow>
      split z u = None)"
proof (intro conjI impI)
  show "split s [] = Some ([], s)" by (rule split_empty_text)
next
  assume "0 < chunk_size s"
  then show "\<exists>ps. recursive_split (chunk_size s) t = Some ps"
    using recursive_split_pieces [of "chunk_size s" t] by auto
next
  assume "0 < chunk_size s"
  then show "\<exists>segs. split_preserving_protected (chunk_size s) t ranges = Some segs"
    using split_preserving_protected_segments [of "chunk_size s" t ranges] by auto
next
  assume "0 < chunk_size s"
  then show "\<exists>chunks s'. split s t = Some (chunks, s')"
    using split_returns [of s t] by auto
next
  assume "chunk_size z \<le> 0 \<and> i < length u \<and> ordinary (u ! i) \<and>
      (\<forall>(a, b)\<in>set (extract_protected_ranges u). \<not> (a \<le> i \<and> i < b))"
  then show "split z u = None" by (intro split_stuck [of z i u]) simp_all
qed

theorem split_total_witness:
  "0 < chunk_size (TextSplitter 200 50) \<and>
   (\<exists>ps. recursive_split (chunk_size (TextSplitter 200 50)) title_doc = Some ps) \<and>
   (\<exists>segs. split_preserving_protected (chunk_size (TextSplitter 200 50)) title_doc [] = Some segs) \<and>
   (\<exists>chunks s'. split (TextSplitter 200 50) title_doc = Some (chunks, s')) \<and>
   chunk_size (TextSplitter 0 50) \<le> 0 \<and> 6 < length link_c_doc \<and> ordinary (link_c_doc ! 6) \<and>
   extract_protected_ranges link_c_doc = [(0, 6)] \<and>
   split (TextSplitter 0 50) link_c_doc = None"
proof -
  note all = split_total [of "TextSplitter 200 50" title_doc "[]" "TextSplitter 0 50" 6 link_c_doc]
  have h: "0 < chunk_size (TextSplitter 200 50)" by (simp add: TextSplitter_def)
  have g1: "chunk_size (TextSplitter 0 50) \<le> 0" by (simp add: TextSplitter_def)
  have g2: "6 < length link_c_doc" by (simp add: link_c_doc_def ustr_of_def)
  have g3: "ordinary (link_c_doc ! 6)"
    by (simp add: link_c_doc_def ustr_of_def ordinary_def is_space_def separators_def)
  have g4: "\<forall>(a, b)\<in>set (extract_protected_ranges link_c_doc). \<not> (a \<le> 6 \<and> 6 < b)"
    unfolding ranges_link_c_doc by simp
  note pos = mp [OF conjunct1 [OF conjunct2 [OF all]] h]
  have g: "chunk_size (TextSplitter 0 50) \<le> 0 \<and> 6 < length link_c_doc \<and>
      ordinary (link_c_doc ! 6) \<and>
      (\<forall>(a, b)\<in>set (extract_protected_ranges link_c_doc). \<not> (a \<le> 6 \<and> 6 < b))"
    by (intro conjI g1 g2 g3 g4)
  note stuck = mp [OF conjunct2 [OF conjunct2 [OF all]] g]
  show ?thesis by (intro conjI h g1 g2 g3 ranges_link_c_doc stuck conjunct1 [OF pos]
      conjunct1 [OF conjunct2 [OF pos]] conjunct2 [OF conjunct2 [OF pos]])
qed

section \<open>The header path of the chunks (C7)\<close>

lemma header_step_map_of:
  "map_of (header_step hs m) k =
     (if length (fst m) < k then None
      else if k = length (fst m) then Some (strip (snd m)) else map_of hs k)"
  by (simp add: header_step_def Let_def map_of_filter_key update_conv')

lemma header_scan_chain: "map_of (foldl header_step hs ms) k = chain_at hs ms k"
proof (induction ms rule: rev_induct)
  case Nil
  then show ?case by (simp add: chain_at_def)
next
  case (snoc m ms)
  then show ?case
    by (auto simp: chain_at_def header_step_map_of split: list.splits)
qed

lemma get_headers_levels:
  "get_headers hs =
     join (ustr_of '' > '') (map (\<lambda>k. the (map_of hs k)) (sort (map fst hs)))"
proof -
  have "(case map_of hs k of None \<Rightarrow> [] | Some v \<Rightarrow> v) = the (map_of hs k)"
    if "k \<in> set (sort (map fst hs))" for k
  proof -
    from that have "k \<in> fst ` set hs" by simp
    then have "map_of hs k \<noteq> None" by (simp add: map_of_eq_None_iff)
    then show ?thesis by auto
  qed
  then have "map (\<lambda>k. case map_of hs k of None \<Rightarrow> [] | Some v \<Rightarrow> v) (sort (map fst hs))
      = map (\<lambda>k. the (map_of hs k)) (sort (map fst hs))"
    by (intro map_cong) simp_all
  then show ?thesis by (simp only: get_headers_def)
qed

lemma split_nested_doc:
  "split (TextSplitter 8 2) nested_doc =
     Some ([ustr_of ''A > B'' @ [10, 10] @ ustr_of ''# Axx'',
            ustr_of ''A > B'' @ [10, 10] @ ustr_of ''xx## Byy''],
           \<lparr>chunk_size = 8, chunk_overlap = 2,
             header_tracker = [(1, ustr_of ''A''), (2, ustr_of ''B'')]\<rparr>)"
  by (simp add: nested_doc_def rx_eval header_eval split_eval)

text \<open>
  C7: in one \<open>split\<close> call, for every document, every instance and every chunk size, the
  chunks are the chunks of \<open>merge_chunks\<close> with one and the same header path in front,
  followed by a blank line, or the chunks as they are when the path is empty. The path is
  that of the tracker after one scan of the whole document: for each level the trimmed
  title of the last header line of that level or a lower one, when that line is of the
  level (for a level with no such line, what the instance held before the call); the titles
  are joined with \<open> > \<close> in ascending order of the levels. For a chunk size of at least one
  the call returns.
\<close>

theorem split_header_prefix:
  "\<exists>hs levels path.
     (\<forall>k. map_of hs k = chain_at (header_tracker s) (findall_headers t) k) \<and>
     levels = sort (map fst hs) \<and> sorted levels \<and> set levels = {k. map_of hs k \<noteq> None} \<and>
     path = join (ustr_of '' > '') (map (\<lambda>k. the (map_of hs k)) levels) \<and>
     split s t =
       map_option
         (\<lambda>segs. (map (\<lambda>chunk. if path = [] then chunk else path @ [10, 10] @ chunk)
                    (merge_chunks (chunk_size s) (chunk_overlap s) segs),
                  s\<lparr>header_tracker := hs\<rparr>))
         (split_preserving_protected (chunk_size s) t (extract_protected_ranges t)) \<and>
     (0 < chunk_size s \<longrightarrow> split s t \<noteq> None)"
proof -
  define hs where "hs = update_from_text (header_tracker s) t"
  define path where "path = get_headers hs"
  have a: "\<forall>k. map_of hs k = chain_at (header_tracker s) (findall_headers t) k"
    by (simp add: hs_def update_from_text_def header_scan_chain)
  have b: "set (sort (map fst hs)) = {k. map_of hs k \<noteq> None}"
    by (auto simp: map_of_eq_None_iff)
  have c: "path = join (ustr_of '' > '') (map (\<lambda>k. the (map_of hs k)) (sort (map fst hs)))"
    unfolding path_def by (rule get_headers_levels)
  have d: "split s t =
       map_option
         (\<lambda>segs. (map (\<lambda>chunk. if path = [] then chunk else path @ [10, 10] @ chunk)
                    (merge_chunks (chunk_size s) (chunk_overlap s) segs),
                  s\<lparr>header_tracker := hs\<rparr>))
         (split_preserving_protected (chunk_size s) t (extract_protected_ranges t))"
    by (cases "split_preserving_protected (chunk_size s) t (extract_protected_ranges t)")
      (auto simp: split_def Let_def hs_def path_def add_header_def)
  have e: "0 < chunk_size s \<longrightarrow> split s t \<noteq> None"
    using split_returns [of s t] by auto
  from a b c d e show ?thesis by (intro exI [of _ hs] exI [of _ "sort (map fst hs)"]
      exI [of _ path] conjI) simp_all
qed

theorem split_header_prefix_witness:
  "0 < chunk_size (TextSplitter 8 2) \<and> split (TextSplitter 8 2) nested_doc \<noteq> None \<and>
   map_option fst (split (TextSplitter 8 2) nested_doc) =
     Some [ustr_of ''A > B'' @ [10, 10] @ ustr_of ''# Axx'',
           ustr_of ''A > B'' @ [10, 10] @ ustr_of ''xx## Byy'']"
proof -
  have h: "0 < chunk_size (TextSplitter 8 2)" by (simp add: TextSplitter_def)
  from split_header_prefix [of "TextSplitter 8 2" nested_doc]
  have "0 < chunk_size (TextSplitter 8 2) \<longrightarrow> split (TextSplitter 8 2) nested_doc \<noteq> None"
    by (elim exE conjE)
  from mp [OF this h] have r: "split (TextSplitter 8 2) nested_doc \<noteq> None" .
  have v: "map_option fst (split (TextSplitter 8 2) nested_doc) =
     Some [ustr_of ''A > B'' @ [10, 10] @ ustr_of ''# Axx'',
           ustr_of ''A > B'' @ [10, 10] @ ustr_of ''xx## Byy'']"
    by (simp only: split_nested_doc) simp
  show ?thesis by (intro conjI h r v)
qed

section \<open>A second call on the same instance (C10)\<close>

lemma split_header_doc:
  "split (TextSplitter 200 50) (ustr_of ''# A'') =
     Some ([ustr_of ''A'' @ [10, 10] @ ustr_of ''# A''],
           \<lparr>chunk_size = 200, chunk_overlap = 50, header_tracker = [(1, ustr_of ''A'')]\<rparr>)"
  by (simp add: rx_eval header_eval split_eval)

lemma split_after_header_doc:
  "split \<lparr>chunk_size = 200, chunk_overlap = 50, header_tracker = [(1, ustr_of ''A'')]\<rparr>
       (ustr_of ''x'') =
     Some ([ustr_of ''A'' @ [10, 10] @ ustr_of ''x''],
           \<lparr>chunk_size = 200, chunk_overlap = 50, header_tracker = [(1, ustr_of ''A'')]\<rparr>)"
  by (simp add: rx_eval header_eval split_eval)

lemma split_plain_doc:
  "split (TextSplitter 200 50) (ustr_of ''x'') = Some ([ustr_of ''x''], TextSplitter 200 50)"
  by (simp add: rx_eval header_eval split_eval)

text \<open>
  C10, as stated: a second \<open>split\<close> call on an instance gives what the call gives on a
  new instance, the header map carrying nothing over. The tracker is made once, by the
  constructor, and \<open>split\<close> never resets it: after \<open>split("# A")\<close> the instance holds the
  header \<open>A\<close>, and \<open>split("x")\<close> on it returns \<open>A\n\nx\<close>, where a new instance returns \<open>x\<close>.
\<close>

theorem second_split_keeps_headers:
  "split (TextSplitter 200 50) (ustr_of ''# A'') =
     Some ([ustr_of ''A'' @ [10, 10] @ ustr_of ''# A''],
           \<lparr>chunk_size = 200, chunk_overlap = 50, header_tracker = [(1, ustr_of ''A'')]\<rparr>)
   \<and> map_option fst (split \<lparr>chunk_size = 200, chunk_overlap = 50,
          header_tracker = [(1, ustr_of ''A'')]\<rparr> (ustr_of ''x''))
       = Some [ustr_of ''A'' @ [10, 10] @ ustr_of ''x'']
   \<and> map_option fst (split (TextSplitter 200 50) (ustr_of ''x'')) = Some [ustr_of ''x'']
   \<and> map_option fst (split \<lparr>chunk_size = 200, chunk_overlap = 50,
          header_tracker = [(1, ustr_of ''A'')]\<rparr> (ustr_of ''x''))
       \<noteq> map_option fst (split (TextSplitter 200 50) (ustr_of ''x''))"
  by (simp only: split_header_doc split_after_header_doc split_plain_doc)
    (simp add: ustr_of_def)

text \<open>
  C10, amended: the range list and the segment list belong to one call, but the header
  map belongs to the instance and is carried over. A call that returns leaves the
  instance with its chunk size and overlap unchanged and with the header map that the
  scan of the document made from the map before the call; a later call on the instance
  gives what it gives on a new instance of the same chunk size and overlap whenever that
  header map is empty (no call so far has seen a header line).
\<close>

theorem split_carries_headers:
  assumes "split s t1 = Some (chunks1, s1)"
  shows "s1 = s\<lparr>header_tracker := update_from_text (header_tracker s) t1\<rparr>
     \<and> (update_from_text (header_tracker s) t1 = [] \<longrightarrow>
          split s1 t2 = split (TextSplitter (chunk_size s) (chunk_overlap s)) t2)"
proof -
  from assms have s1: "s1 = s\<lparr>header_tracker := update_from_text (header_tracker s) t1\<rparr>"
    by (auto simp: split_def Let_def split: option.splits)
  moreover have "s\<lparr>header_tracker := []\<rparr> = TextSplitter (chunk_size s) (chunk_overlap s)"
    by (cases s) (simp add: TextSplitter_def)
  ultimately show ?thesis by simp
qed

theorem split_carries_headers_witness:
  "split (TextSplitter 200 50) (ustr_of ''x'') = Some ([ustr_of ''x''], TextSplitter 200 50)
   \<and> update_from_text (header_tracker (TextSplitter 200 50)) (ustr_of ''x'') = []
   \<and> split (TextSplitter 200 50) title_doc
       = split (TextSplitter (chunk_size (TextSplitter 200 50))
                  (chunk_overlap (TextSplitter 200 50))) title_doc"
proof -
  have h: "update_from_text (header_tracker (TextSplitter 200 50)) (ustr_of ''x'') = []"
    by (simp add: TextSplitter_def rx_eval header_eval)
  note c = conjunct2 [OF split_carries_headers [OF split_plain_doc, of title_doc]]
  from split_plain_doc h mp [OF c h] show ?thesis by (intro conjI)
qed

section \<open>The segments and the text (C1)\<close>

lemma slice_append: "a \<le> b \<Longrightarrow> b \<le> c \<Longrightarrow> slice t a b @ slice t b c = slice t a c"
proof -
  assume ab: "a \<le> b" and bc: "b \<le> c"
  have "take (c - a) (drop a t) = take ((b - a) + (c - b)) (drop a t)"
    using ab bc by simp
  also have "\<dots> = take (b - a) (drop a t) @ take (c - b) (drop (b - a) (drop a t))"
    by (rule take_add)
  also have "drop (b - a) (drop a t) = drop b t" using ab by simp
  finally show ?thesis by (simp add: slice_def)
qed

lemma recursive_split_verbatim:
  assumes "0 < cs" and "verbatim cs g"
  shows "\<exists>ps. recursive_split cs g = Some ps \<and> concat ps = g"
proof -
  from assms(2) have s: "strip g = g" by (simp add: verbatim_def)
  show ?thesis
  proof (cases "g = [] \<or> int (length g) \<le> cs")
    case True
    then show ?thesis by (subst recursive_split.simps) (auto simp: s)
  next
    case False
    with assms(2) have "find (\<lambda>sep. occurs sep g) separators = None"
      by (simp add: verbatim_def find_None_iff)
    moreover have "fixed_width cs g 0 [] = Some (chop (nat cs) g)"
      using fixed_width_chop [OF assms(1), of 0 g "[]"] by simp
    moreover have "concat (chop (nat cs) g) = g" using assms(1) by (simp add: concat_chop)
    ultimately show ?thesis using False by (subst recursive_split.simps) (simp add: s)
  qed
qed

lemma protected_loop_concat:
  assumes "0 < cs"
  shows "gaps_verbatim cs t last_index ps \<Longrightarrow>
     \<exists>segs l. protected_loop cs t ps last_index acc = Some (segs, l) \<and>
       last_index \<le> l \<and> l \<le> length t \<and> verbatim cs (drop l t) \<and>
       concat segs = concat acc @ slice t last_index l"
proof (induction ps arbitrary: last_index acc)
  case Nil
  then show ?case by (simp add: slice_def)
next
  case (Cons p ps)
  obtain a b where p: "p = (a, b)" by (cases p)
  from Cons.prems p have g: "last_index \<le> a" "a \<le> b" "b \<le> length t"
    "verbatim cs (slice t last_index a)" "gaps_verbatim cs t b ps"
    by simp_all
  from recursive_split_verbatim [OF assms g(4)]
  obtain r where r: "recursive_split cs (slice t last_index a) = Some r"
    "concat r = slice t last_index a" by blast
  define acc' where "acc' = (if last_index < a then acc @ r @ [slice t a b]
    else acc @ [slice t a b])"
  have "slice t last_index a = []" if "\<not> last_index < a"
    using that by (simp add: slice_def)
  then have c: "concat acc' = concat acc @ slice t last_index b"
    using r(2) slice_append [OF g(1,2), of t] by (auto simp: acc'_def)
  from Cons.IH [OF g(5), of acc']
  obtain segs l where l: "protected_loop cs t ps b acc' = Some (segs, l)"
    "b \<le> l" "l \<le> length t" "verbatim cs (drop l t)"
    "concat segs = concat acc' @ slice t b l" by blast
  have "protected_loop cs t (p # ps) last_index acc = Some (segs, l)"
    using l(1) r(1) unfolding acc'_def by (cases "last_index < a") (simp_all add: p)
  moreover have "concat segs = concat acc @ slice t last_index l"
    using l(5) c slice_append [of last_index b l t] g(1,2) l(2) by simp
  ultimately show ?case using g(1,2) l(2,3,4) by auto
qed

lemma split_link_doc:
  "extract_protected_ranges link_doc = [(1, 7)]"
  by (simp add: link_doc_def rx_eval split_eval)

lemma split_leading_space:
  "split_preserving_protected 200 (ustr_of '' a'') (extract_protected_ranges (ustr_of '' a''))
     = Some [ustr_of ''a'']"
  by (simp add: rx_eval header_eval split_eval)

text \<open>
  C1, as stated: for every text, the segments that \<open>split_preserving_protected\<close> returns
  for the ranges of \<open>extract_protected_ranges\<close> concatenate to the text.
  \<open>recursive_split\<close> trims every gap and drops the separators it splits at, so the text
  \<open> a\<close> (a space, then \<open>a\<close>) gives the one segment \<open>a\<close>.
\<close>

theorem segments_drop_whitespace:
  "map_option concat (split_preserving_protected 200 (ustr_of '' a'')
       (extract_protected_ranges (ustr_of '' a'')))
     \<noteq> Some (ustr_of '' a'')"
  by (simp only: split_leading_space) (simp add: ustr_of_def)

text \<open>
  C1, amended: for a chunk size of at least one and ranges that are sorted, do not overlap
  and lie in the text, \<open>split_preserving_protected\<close> returns segments that concatenate to
  the text whenever every gap before, between and after the ranges has no whitespace at
  either end and fits the chunk size or holds none of the separators. (Otherwise the
  whitespace around a gap and the separators at which a gap is split are missing from the
  segments.)
\<close>

theorem segments_concat_verbatim:
  assumes "0 < cs" and "gaps_verbatim cs t 0 ranges"
  shows "\<exists>segs. split_preserving_protected cs t ranges = Some segs \<and> concat segs = t"
proof -
  from protected_loop_concat [OF assms, of "[]"]
  obtain segs l where l: "protected_loop cs t ranges 0 [] = Some (segs, l)"
    "l \<le> length t" "verbatim cs (drop l t)" "concat segs = slice t 0 l" by auto
  from recursive_split_verbatim [OF assms(1) l(3)]
  obtain r where r: "recursive_split cs (drop l t) = Some r" "concat r = drop l t" by blast
  show ?thesis
  proof (cases "l < length t")
    case True
    with l r show ?thesis by (simp add: split_preserving_protected_def slice_def)
  next
    case False
    with l show ?thesis by (simp add: split_preserving_protected_def slice_def)
  qed
qed

theorem segments_concat_verbatim_witness:
  "(0::int) < 200 \<and> gaps_verbatim 200 link_doc 0 (extract_protected_ranges link_doc) \<and>
   (\<exists>segs. split_preserving_protected 200 link_doc (extract_protected_ranges link_doc) = Some segs
      \<and> concat segs = link_doc)"
proof -
  have h1: "(0::int) < 200" by simp
  have h2: "gaps_verbatim 200 link_doc 0 (extract_protected_ranges link_doc)"
    unfolding split_link_doc
    by (simp add: link_doc_def verbatim_def strip_def is_space_def slice_def ustr_of_def)
  from h1 h2 segments_concat_verbatim [OF h1 h2] show ?thesis by (intro conjI)
qed

section \<open>Segments in the merged chunks\<close>










section \<open>What a match takes from the text\<close>









section \<open>A fenced code block alone in the document\<close>





















section \<open>Protected ranges stay whole (C2)\<close>





end
